theory Spec2Isabelle
  imports Main "HOL-Library.FSet" "HOL-Library.Finite_Map" "HOL-Library.Word"
begin

section \<open>The automaton: class Dfa of fsa/dfa.hpp\<close>

text \<open>
  \<^verbatim>\<open>Dfa<State, Alpha>\<close> keeps a \<^verbatim>\<open>std::set\<close> of states, the initial state, a
  \<^verbatim>\<open>std::set\<close> of symbols, a \<^verbatim>\<open>std::map\<close> from (state, symbol) pairs to the
  destination state and a \<^verbatim>\<open>std::set\<close> of accepting states. The sets are finite
  sets, the map is a finite map. The members \<^verbatim>\<open>_states\<close>, \<^verbatim>\<open>_init\<close>, ... are
  written \<open>m_states\<close>, \<open>m_init\<close>, ... here.
\<close>

record ('State, 'Alpha) Dfa =
  m_states :: "'State fset"
  m_init :: "'State"
  m_alphabet :: "'Alpha fset"
  m_transTable :: "('State \<times> 'Alpha, 'State) fmap"
  m_finStates :: "'State fset"

text \<open>
  \<^verbatim>\<open>Dfa() = default\<close>: the containers are empty; \<^verbatim>\<open>_init\<close> is default-initialised,
  which leaves a scalar \<^verbatim>\<open>State\<close> with an indeterminate content. The argument
  \<open>q\<close> stands for that content: no member function has written it.
\<close>

definition Dfa_default :: "'State \<Rightarrow> ('State, 'Alpha) Dfa" where
  "Dfa_default q =
     \<lparr>m_states = {||}, m_init = q, m_alphabet = {||}, m_transTable = fmempty, m_finStates = {||}\<rparr>"

text \<open>
  The mutating member functions return the automaton after the call. \<^verbatim>\<open>addState\<close>,
  \<^verbatim>\<open>addSymbol\<close> and \<^verbatim>\<open>addFinState\<close> also return their argument in the source.
\<close>

definition addState :: "'State \<Rightarrow> ('State, 'Alpha) Dfa \<Rightarrow> ('State, 'Alpha) Dfa" where
  "addState s d =
     (let d1 = (if fcard (m_states d) = 0 then d\<lparr>m_init := s\<rparr> else d)
      in d1\<lparr>m_states := finsert s (m_states d1)\<rparr>)"

definition addSymbol :: "'Alpha \<Rightarrow> ('State, 'Alpha) Dfa \<Rightarrow> ('State, 'Alpha) Dfa" where
  "addSymbol a d = d\<lparr>m_alphabet := finsert a (m_alphabet d)\<rparr>"

text \<open>
  \<^verbatim>\<open>std::map::insert\<close>: the pair is stored only when the map has no element with
  that key; otherwise the map is left as it is.
\<close>

definition map_insert :: "'k \<Rightarrow> 'v \<Rightarrow> ('k, 'v) fmap \<Rightarrow> ('k, 'v) fmap" where
  "map_insert k v m = (if k |\<in>| fmdom m then m else fmupd k v m)"

definition addTrans ::
  "'State \<Rightarrow> 'Alpha \<Rightarrow> 'State \<Rightarrow> ('State, 'Alpha) Dfa \<Rightarrow> ('State, 'Alpha) Dfa" where
  "addTrans s a t d =
     (let d1 = addState s d;
          d2 = addState t d1;
          d3 = addSymbol a d2
      in d3\<lparr>m_transTable := map_insert (s, a) t (m_transTable d3)\<rparr>)"

definition addFinState :: "'State \<Rightarrow> ('State, 'Alpha) Dfa \<Rightarrow> ('State, 'Alpha) Dfa" where
  "addFinState s d =
     d\<lparr>m_states := finsert s (m_states d), m_finStates := finsert s (m_finStates d)\<rparr>"

text \<open>
  \<^verbatim>\<open>setInitState\<close> is declared to return \<^verbatim>\<open>State\<close> and has no return statement:
  after its two statements control flows off the end of a value-returning function,
  which is undefined behaviour. No result of the call is defined, whatever the two
  statements did to the automaton: the model gives the failure.
\<close>

datatype failure = NoReturnValue

definition setInitState ::
  "'State \<Rightarrow> ('State, 'Alpha) Dfa \<Rightarrow> failure + ('State, 'Alpha) Dfa" where
  "setInitState i d =
     (let d1 = addState i d;
          d2 = d1\<lparr>m_init := i\<rparr>
      in Inl NoReturnValue)"

definition getInitState :: "('State, 'Alpha) Dfa \<Rightarrow> 'State" where
  "getInitState d = m_init d"

definition getStatesNum :: "('State, 'Alpha) Dfa \<Rightarrow> nat" where
  "getStatesNum d = fcard (m_states d)"

definition getSymbolsNum :: "('State, 'Alpha) Dfa \<Rightarrow> nat" where
  "getSymbolsNum d = fcard (m_alphabet d)"

definition getTransNum :: "('State, 'Alpha) Dfa \<Rightarrow> nat" where
  "getTransNum d = fcard (fmdom (m_transTable d))"

definition getFinStatesNum :: "('State, 'Alpha) Dfa \<Rightarrow> nat" where
  "getFinStatesNum d = fcard (m_finStates d)"

text \<open>
  \<^verbatim>\<open>getTrans(s, a, d)\<close> returns true and stores the destination in \<^verbatim>\<open>d\<close>, or
  returns false and leaves \<^verbatim>\<open>d\<close> alone: \<open>Some\<close> destination or \<open>None\<close>.
\<close>

definition getTrans :: "('State, 'Alpha) Dfa \<Rightarrow> 'State \<Rightarrow> 'Alpha \<Rightarrow> 'State option" where
  "getTrans d s a = fmlookup (m_transTable d) (s, a)"

definition hasState :: "('State, 'Alpha) Dfa \<Rightarrow> 'State \<Rightarrow> bool" where
  "hasState d s = (s |\<in>| m_states d)"

definition hasFinState :: "('State, 'Alpha) Dfa \<Rightarrow> 'State \<Rightarrow> bool" where
  "hasFinState d s = (s |\<in>| m_finStates d)"

text \<open>
  The constructor \<^verbatim>\<open>Dfa(init, l, fin)\<close>: the members start as in \<open>Dfa_default\<close>,
  then the two \<^verbatim>\<open>for\<close> statements and the assignment of \<^verbatim>\<open>_init\<close> run.
\<close>

fun addTransList ::
  "('State \<times> 'Alpha \<times> 'State) list \<Rightarrow> ('State, 'Alpha) Dfa \<Rightarrow> ('State, 'Alpha) Dfa" where
  "addTransList [] d = d"
| "addTransList ((s, a, t) # l) d = addTransList l (addTrans s a t d)"

fun addFinStateList :: "'State list \<Rightarrow> ('State, 'Alpha) Dfa \<Rightarrow> ('State, 'Alpha) Dfa" where
  "addFinStateList [] d = d"
| "addFinStateList (s # fin) d = addFinStateList fin (addFinState s d)"

definition Dfa_bulk ::
  "'State \<Rightarrow> 'State \<Rightarrow> ('State \<times> 'Alpha \<times> 'State) list \<Rightarrow> 'State list \<Rightarrow> ('State, 'Alpha) Dfa" where
  "Dfa_bulk q init l fin =
     (let d1 = addTransList l (Dfa_default q);
          d2 = (addState init d1)\<lparr>m_init := init\<rparr>
      in addFinStateList fin d2)"

section \<open>The player: class DfaPlayer of fsa/dfa.hpp\<close>

datatype Result = Ok | NoTrans | NonFinState

text \<open>The two member functions of \<^verbatim>\<open>IEventListener\<close>, as the calls a listener receives.\<close>

datatype ('State, 'Alpha) IEventListener =
  onStateChanging 'State 'State
| onTransFired 'State 'Alpha 'State

text \<open>
  \<^verbatim>\<open>_dfa\<close> is a const reference: the record holds the automaton it refers to.
  \<^verbatim>\<open>_curPos\<close> is an \<^verbatim>\<open>int\<close>: a 32-bit word, read as two's complement by
  \<open>sint\<close>, whose increment wraps around.
  \<^verbatim>\<open>_cb\<close> is a pointer to the listener, \<open>None\<close> for the null pointer.
\<close>

record ('State, 'Alpha, 'L) DfaPlayer =
  m_dfa :: "('State, 'Alpha) Dfa"
  m_curState :: "'State"
  m_curPos :: "32 word"
  m_lastSymb :: "'Alpha"
  m_cb :: "'L option"

text \<open>
  The constructor sets \<^verbatim>\<open>_dfa\<close>, \<^verbatim>\<open>_cb\<close> and \<^verbatim>\<open>_curPos\<close>. It does not write
  \<^verbatim>\<open>_curState\<close> and \<^verbatim>\<open>_lastSymb\<close>: \<open>q\<close> and \<open>a\<close> stand for their indeterminate
  contents.
\<close>

definition DfaPlayer_new ::
  "('State, 'Alpha) Dfa \<Rightarrow> 'L option \<Rightarrow> 'State \<Rightarrow> 'Alpha \<Rightarrow> ('State, 'Alpha, 'L) DfaPlayer" where
  "DfaPlayer_new d cb q a =
     \<lparr>m_dfa = d, m_curState = q, m_curPos = - 1, m_lastSymb = a, m_cb = cb\<rparr>"

text \<open>
  A call of the listener is recorded with the player as it is when the listener runs,
  which is what the listener would read through the accessors. No call is made through
  a null \<^verbatim>\<open>_cb\<close>.
\<close>

type_synonym ('State, 'Alpha, 'L) calls =
  "(('State, 'Alpha) IEventListener \<times> ('State, 'Alpha, 'L) DfaPlayer) list"

definition notify ::
  "('State, 'Alpha, 'L) DfaPlayer \<Rightarrow> ('State, 'Alpha) IEventListener \<Rightarrow> ('State, 'Alpha, 'L) calls" where
  "notify p c = (case m_cb p of None \<Rightarrow> [] | Some l \<Rightarrow> [(c, p)])"

definition init ::
  "('State, 'Alpha, 'L) DfaPlayer \<Rightarrow> ('State, 'Alpha, 'L) DfaPlayer \<times> ('State, 'Alpha, 'L) calls" where
  "init p =
     (let p1 = p\<lparr>m_curState := getInitState (m_dfa p), m_curPos := 0\<rparr>
      in (p1, notify p1 (onStateChanging (m_curState p1) (m_curState p1))))"

definition replaySymb ::
  "'Alpha \<Rightarrow> ('State, 'Alpha, 'L) DfaPlayer \<Rightarrow>
     bool \<times> ('State, 'Alpha, 'L) DfaPlayer \<times> ('State, 'Alpha, 'L) calls" where
  "replaySymb a p =
     (let p1 = p\<lparr>m_lastSymb := a\<rparr>
      in case getTrans (m_dfa p1) (m_curState p1) a of
           None \<Rightarrow> (False, p1, [])
         | Some nextSt \<Rightarrow>
             (True, p1\<lparr>m_curState := nextSt, m_curPos := m_curPos p1 + 1\<rparr>,
              notify p1 (onTransFired (m_curState p1) a nextSt)))"

text \<open>
  The \<^verbatim>\<open>for\<close> loop of \<^verbatim>\<open>play\<close>: it stops at the first symbol that
  \<^verbatim>\<open>replaySymb\<close> refuses. The flag tells whether the whole sequence was replayed.
\<close>

fun play_loop ::
  "'Alpha list \<Rightarrow> ('State, 'Alpha, 'L) DfaPlayer \<Rightarrow>
     bool \<times> ('State, 'Alpha, 'L) DfaPlayer \<times> ('State, 'Alpha, 'L) calls" where
  "play_loop [] p = (True, p, [])"
| "play_loop (a # seq) p =
     (case replaySymb a p of
        (False, p1, cs) \<Rightarrow> (False, p1, cs)
      | (True, p1, cs) \<Rightarrow>
          (case play_loop seq p1 of (ok, p2, cs2) \<Rightarrow> (ok, p2, cs @ cs2)))"

definition play ::
  "'Alpha list \<Rightarrow> ('State, 'Alpha, 'L) DfaPlayer \<Rightarrow>
     Result \<times> ('State, 'Alpha, 'L) DfaPlayer \<times> ('State, 'Alpha, 'L) calls" where
  "play seq p =
     (case init p of (p0, cs0) \<Rightarrow>
        (case play_loop seq p0 of (ok, p1, cs1) \<Rightarrow>
           (if \<not> ok then NoTrans
            else if \<not> hasFinState (m_dfa p1) (m_curState p1) then NonFinState
            else Ok,
            p1, cs0 @ cs1)))"

definition getCurState :: "('State, 'Alpha, 'L) DfaPlayer \<Rightarrow> 'State" where
  "getCurState p = m_curState p"

text \<open>
  \<^verbatim>\<open>getCurPos\<close> is declared to return \<^verbatim>\<open>State\<close>: the \<^verbatim>\<open>int\<close> is converted to
  \<^verbatim>\<open>State\<close> on return. \<open>conv\<close> is that conversion, the identity for
  \<^verbatim>\<open>DfaPlayer<int, char>\<close>.
\<close>

definition getCurPos :: "(32 word \<Rightarrow> 'State) \<Rightarrow> ('State, 'Alpha, 'L) DfaPlayer \<Rightarrow> 'State" where
  "getCurPos conv p = conv (m_curPos p)"

definition getLastSymbol :: "('State, 'Alpha, 'L) DfaPlayer \<Rightarrow> 'Alpha" where
  "getLastSymbol p = m_lastSymb p"

definition setEventListener ::
  "'L option \<Rightarrow> ('State, 'Alpha, 'L) DfaPlayer \<Rightarrow> ('State, 'Alpha, 'L) DfaPlayer" where
  "setEventListener cb p = p\<lparr>m_cb := cb\<rparr>"

definition getEventListener :: "('State, 'Alpha, 'L) DfaPlayer \<Rightarrow> 'L option" where
  "getEventListener p = m_cb p"

section \<open>Notions used to state the properties\<close>

text \<open>
  \<open>contents_le d d'\<close>: every state, symbol, transition and accepting state of \<open>d\<close>
  is one of \<open>d'\<close>, and none of the four counters is smaller in \<open>d'\<close>. A transition
  is a pair of a (state, symbol) key and its destination.
\<close>

definition contents_le :: "('State, 'Alpha) Dfa \<Rightarrow> ('State, 'Alpha) Dfa \<Rightarrow> bool" where
  "contents_le d d' =
     (m_states d |\<subseteq>| m_states d' \<and> m_alphabet d |\<subseteq>| m_alphabet d' \<and>
      fset_of_fmap (m_transTable d) |\<subseteq>| fset_of_fmap (m_transTable d') \<and>
      m_finStates d |\<subseteq>| m_finStates d' \<and>
      getStatesNum d \<le> getStatesNum d' \<and> getSymbolsNum d \<le> getSymbolsNum d' \<and>
      getTransNum d \<le> getTransNum d' \<and> getFinStatesNum d \<le> getFinStatesNum d')"

text \<open>
  \<open>consume d q seq\<close> follows the transitions of \<open>d\<close> from \<open>q\<close> along \<open>seq\<close>:
  the state reached when every symbol has a transition, \<open>None\<close> when one is missing.
  \<open>transFiredCalls d q seq\<close> lists the transitions taken on the way, in input order,
  as the \<^verbatim>\<open>onTransFired\<close> calls that report them.
\<close>

fun consume :: "('State, 'Alpha) Dfa \<Rightarrow> 'State \<Rightarrow> 'Alpha list \<Rightarrow> 'State option" where
  "consume d q [] = Some q"
| "consume d q (a # seq) =
     (case getTrans d q a of None \<Rightarrow> None | Some t \<Rightarrow> consume d t seq)"

fun transFiredCalls ::
  "('State, 'Alpha) Dfa \<Rightarrow> 'State \<Rightarrow> 'Alpha list \<Rightarrow> ('State, 'Alpha) IEventListener list" where
  "transFiredCalls d q [] = []"
| "transFiredCalls d q (a # seq) =
     (case getTrans d q a of
        None \<Rightarrow> []
      | Some t \<Rightarrow> onTransFired q a t # transFiredCalls d t seq)"

text \<open>
  The automaton of \<^verbatim>\<open>TEST(Dfa, makeExample1)\<close> and \<^verbatim>\<open>TEST(DfaPlayer, replay1)\<close>,
  a \<^verbatim>\<open>Dfa<int, char>\<close>: states are 32-bit words.
\<close>

definition example1 :: "32 word \<Rightarrow> (32 word, char) Dfa" where
  "example1 q =
     Dfa_bulk q 0
       [(0, CHR ''1'', 0), (0, CHR ''0'', 1),
        (1, CHR ''0'', 1), (1, CHR ''1'', 2),
        (2, CHR ''0'', 2), (2, CHR ''1'', 2)]
       [2]"

section \<open>Facts about the automaton\<close>

lemma map_insert_lookup:
  "fmlookup (map_insert k v m) k' =
     (if k' = k then (case fmlookup m k of None \<Rightarrow> Some v | Some v0 \<Rightarrow> Some v0)
      else fmlookup m k')"
  by (auto simp: map_insert_def fmdom_notI split: option.splits dest: fmdom_notD)

lemma map_insert_dom: "fmdom (map_insert k v m) = finsert k (fmdom m)"
  by (auto simp: map_insert_def)

lemma addState_fields:
  "m_states (addState s d) = finsert s (m_states d)"
  "m_alphabet (addState s d) = m_alphabet d"
  "m_transTable (addState s d) = m_transTable d"
  "m_finStates (addState s d) = m_finStates d"
  "m_init (addState s d) = (if fcard (m_states d) = 0 then s else m_init d)"
  by (simp_all add: addState_def Let_def)

lemma addSymbol_fields:
  "m_states (addSymbol a d) = m_states d"
  "m_alphabet (addSymbol a d) = finsert a (m_alphabet d)"
  "m_transTable (addSymbol a d) = m_transTable d"
  "m_finStates (addSymbol a d) = m_finStates d"
  "m_init (addSymbol a d) = m_init d"
  by (simp_all add: addSymbol_def)

lemma addTrans_fields:
  "m_states (addTrans s a t d) = finsert t (finsert s (m_states d))"
  "m_alphabet (addTrans s a t d) = finsert a (m_alphabet d)"
  "m_transTable (addTrans s a t d) = map_insert (s, a) t (m_transTable d)"
  "m_finStates (addTrans s a t d) = m_finStates d"
  "m_init (addTrans s a t d) = (if fcard (m_states d) = 0 then s else m_init d)"
  by (simp_all add: addTrans_def Let_def addState_fields addSymbol_fields)

lemma addFinState_fields:
  "m_states (addFinState s d) = finsert s (m_states d)"
  "m_alphabet (addFinState s d) = m_alphabet d"
  "m_transTable (addFinState s d) = m_transTable d"
  "m_finStates (addFinState s d) = finsert s (m_finStates d)"
  "m_init (addFinState s d) = m_init d"
  by (simp_all add: addFinState_def)

text \<open>What \<^verbatim>\<open>getTrans\<close> sees after \<^verbatim>\<open>addTrans\<close>: a destination already stored stays.\<close>

lemma getTrans_addTrans:
  "getTrans (addTrans s a t d) s' a' =
     (if (s', a') = (s, a) then (case getTrans d s a of None \<Rightarrow> Some t | Some t0 \<Rightarrow> Some t0)
      else getTrans d s' a')"
  by (simp add: getTrans_def addTrans_fields map_insert_lookup)

lemma contents_leI:
  assumes "m_states d |\<subseteq>| m_states d'" "m_alphabet d |\<subseteq>| m_alphabet d'"
    "fmdom (m_transTable d) |\<subseteq>| fmdom (m_transTable d')"
    "fset_of_fmap (m_transTable d) |\<subseteq>| fset_of_fmap (m_transTable d')"
    "m_finStates d |\<subseteq>| m_finStates d'"
  shows "contents_le d d'"
  using assms
  by (simp add: contents_le_def getStatesNum_def getSymbolsNum_def getTransNum_def
      getFinStatesNum_def fcard_mono)

lemmas dfa_defs =
  Dfa_default_def addState_def addSymbol_def map_insert_def addTrans_def addFinState_def
  setInitState_def getInitState_def getTrans_def hasState_def hasFinState_def Dfa_bulk_def
  example1_def Let_def

lemmas player_defs =
  DfaPlayer_new_def notify_def init_def replaySymb_def play_def getCurState_def
  getCurPos_def getLastSymbol_def

lemma first_state_becomes_init:
  "getInitState (addState s (Dfa_default q)) = s"
  "getInitState (addTrans s a t (Dfa_default q)) = s"
  by (simp_all add: dfa_defs)

subsection \<open>Adding a transition twice\<close>

text \<open>
  Claim C1 at the input where the code departs from it: after \<^verbatim>\<open>addTrans(0, 'a', 1)\<close>
  and then \<^verbatim>\<open>addTrans(0, 'a', 2)\<close> on a default-constructed \<^verbatim>\<open>Dfa<int, char>\<close>,
  \<^verbatim>\<open>getTrans(0, 'a')\<close> yields 1, the destination of the first call, and not 2, the
  destination of the most recent call; the second call has stored no transition to 2
  and has still added the state 2.
\<close>

theorem addTrans_last_write_lost:
  "getTrans (addTrans 0 CHR ''a'' 2 (addTrans 0 CHR ''a'' 1 (Dfa_default 0))) 0 CHR ''a'' =
     Some (1 :: 32 word) \<and>
   getTrans (addTrans 0 CHR ''a'' 2 (addTrans 0 CHR ''a'' 1 (Dfa_default 0))) 0 CHR ''a'' \<noteq>
     Some (2 :: 32 word) \<and>
   hasState (addTrans 0 CHR ''a'' 2 (addTrans 0 CHR ''a'' 1 (Dfa_default 0))) (2 :: 32 word)"
  by (simp add: dfa_defs)

subsection \<open>The first state added through addFinState\<close>

text \<open>
  Claim C4 at the input where the code departs from it: on a default-constructed
  \<^verbatim>\<open>Dfa<int, char>\<close> whose \<^verbatim>\<open>_init\<close> holds 0, \<^verbatim>\<open>addFinState(5)\<close> adds the first
  state and \<^verbatim>\<open>getInitState()\<close> still returns the unwritten content 0, not 5; a
  following \<^verbatim>\<open>addState(7)\<close> finds a state present and does not write \<^verbatim>\<open>_init\<close>
  either. (\<open>first_state_becomes_init\<close> above: \<^verbatim>\<open>addState\<close> and \<^verbatim>\<open>addTrans\<close> do
  make the first state initial.)
\<close>

theorem addFinState_first_leaves_init:
  "getInitState (addFinState 5 (Dfa_default 0 :: (32 word, char) Dfa)) = 0 \<and>
   getInitState (addState 7 (addFinState 5 (Dfa_default 0 :: (32 word, char) Dfa))) = 0"
  by (simp add: dfa_defs)

subsection \<open>The constructor from a list of transitions\<close>

text \<open>
  Claim C5 at the input where the code departs from it: the automaton built from the
  initial state 0 and the triples \<open>(0, 'a', 1), (0, 'a', 2)\<close> takes \<open>(0, 'a')\<close> to
  1, the destination of the earlier triple; the later triple has not overwritten it.
\<close>

theorem Dfa_bulk_later_triple_lost:
  "getTrans (Dfa_bulk 0 0 [(0, CHR ''a'', 1), (0, CHR ''a'', 2)] []) 0 CHR ''a'' =
     Some (1 :: 32 word) \<and>
   getTrans (Dfa_bulk 0 0 [(0, CHR ''a'', 1), (0, CHR ''a'', 2)] []) 0 CHR ''a'' \<noteq>
     Some (2 :: 32 word)"
  by (simp add: dfa_defs)

subsection \<open>The mutating operations\<close>

text \<open>
  Each of \<^verbatim>\<open>addState\<close>, \<^verbatim>\<open>addSymbol\<close>, \<^verbatim>\<open>addTrans\<close> and \<^verbatim>\<open>addFinState\<close> leaves
  an automaton whose sets of states, symbols, transitions and accepting states contain
  those before the call, and whose four counters are not smaller.
\<close>

lemma adders_only_grow:
  "contents_le d (addState s d) \<and> contents_le d (addSymbol a d) \<and>
   contents_le d (addTrans s a t d) \<and> contents_le d (addFinState s d)"
proof -
  have "contents_le d (addState s d)"
    by (rule contents_leI) (auto simp: addState_fields)
  moreover have "contents_le d (addSymbol a d)"
    by (rule contents_leI) (auto simp: addSymbol_fields)
  moreover have "contents_le d (addTrans s a t d)"
    by (rule contents_leI)
      (auto simp: addTrans_fields map_insert_dom map_insert_lookup split: option.splits)
  moreover have "contents_le d (addFinState s d)"
    by (rule contents_leI) (auto simp: addFinState_fields)
  ultimately show ?thesis by blast
qed

text \<open>
  Claim C10 at the input where the code departs from it: \<^verbatim>\<open>setInitState(1)\<close> on a
  default-constructed \<^verbatim>\<open>Dfa<int, char>\<close> has no defined result, since control flows
  off the end of the value-returning function; there is no automaton after the call
  whose contents could be compared with those before. (\<open>adders_only_grow\<close> above: the
  other four operations do only add.)
\<close>

theorem setInitState_no_result:
  "setInitState 1 (Dfa_default 0 :: (32 word, char) Dfa) = Inl NoReturnValue"
  by (simp add: setInitState_def)

section \<open>Facts about the player\<close>

lemma replaySymb_None:
  "getTrans (m_dfa p) (m_curState p) a = None \<Longrightarrow> replaySymb a p = (False, p\<lparr>m_lastSymb := a\<rparr>, [])"
  by (simp add: replaySymb_def)

lemma replaySymb_Some:
  "getTrans (m_dfa p) (m_curState p) a = Some t \<Longrightarrow>
   replaySymb a p =
     (True, p\<lparr>m_lastSymb := a, m_curState := t, m_curPos := m_curPos p + 1\<rparr>,
      notify (p\<lparr>m_lastSymb := a\<rparr>) (onTransFired (m_curState p) a t))"
  by (simp add: replaySymb_def Let_def)

lemma play_loop_append:
  "play_loop (xs @ ys) p =
     (case play_loop xs p of
        (False, p1, cs) \<Rightarrow> (False, p1, cs)
      | (True, p1, cs) \<Rightarrow> (case play_loop ys p1 of (ok, p2, cs2) \<Rightarrow> (ok, p2, cs @ cs2)))"
proof (induction xs arbitrary: p)
  case Nil
  show ?case by (simp split: prod.splits)
next
  case (Cons a xs)
  show ?case
  proof (cases "getTrans (m_dfa p) (m_curState p) a")
    case None
    then show ?thesis by (simp add: replaySymb_None)
  next
    case (Some t)
    then show ?thesis
      by (simp add: replaySymb_Some Cons.IH split: prod.splits bool.splits)
  qed
qed

lemma play_loop_consumed:
  assumes "consume (m_dfa p) (m_curState p) seq = Some qf"
  shows "\<exists>p1 cs. play_loop seq p = (True, p1, cs) \<and> m_dfa p1 = m_dfa p \<and> m_cb p1 = m_cb p \<and>
           m_curState p1 = qf \<and> m_curPos p1 = m_curPos p + of_nat (length seq) \<and>
           m_lastSymb p1 = (if seq = [] then m_lastSymb p else last seq)"
  using assms
proof (induction seq arbitrary: p)
  case Nil
  then show ?case by simp
next
  case (Cons a seq)
  from Cons.prems obtain t where t: "getTrans (m_dfa p) (m_curState p) a = Some t"
    and rest: "consume (m_dfa p) t seq = Some qf"
    by (auto split: option.splits)
  let ?p = "p\<lparr>m_lastSymb := a, m_curState := t, m_curPos := m_curPos p + 1\<rparr>"
  from rest have "consume (m_dfa ?p) (m_curState ?p) seq = Some qf" by simp
  from Cons.IH [OF this] obtain p1 cs where
    "play_loop seq ?p = (True, p1, cs)" "m_dfa p1 = m_dfa p" "m_cb p1 = m_cb p"
    "m_curState p1 = qf" "m_curPos p1 = m_curPos p + 1 + of_nat (length seq)"
    "m_lastSymb p1 = (if seq = [] then a else last seq)"
    by auto
  then show ?case
    by (simp add: replaySymb_Some [OF t] add.assoc add.commute)
qed

lemma play_loop_stuck:
  assumes "consume (m_dfa p) (m_curState p) seq = None"
  shows "fst (play_loop seq p) = False"
  using assms
proof (induction seq arbitrary: p)
  case Nil
  then show ?case by simp
next
  case (Cons a seq)
  show ?case
  proof (cases "getTrans (m_dfa p) (m_curState p) a")
    case None
    then show ?thesis by (simp add: replaySymb_None)
  next
    case (Some t)
    let ?p = "p\<lparr>m_lastSymb := a, m_curState := t, m_curPos := m_curPos p + 1\<rparr>"
    from Cons.prems Some have "consume (m_dfa ?p) (m_curState ?p) seq = None" by simp
    from Cons.IH [OF this] show ?thesis
      by (cases "play_loop seq ?p") (simp add: replaySymb_Some [OF Some])
  qed
qed

lemma sint_of_nat_32: "k < 2 ^ 31 \<Longrightarrow> sint (of_nat k :: 32 word) = int k"
proof -
  assume k: "k < 2 ^ 31"
  have "sint (of_nat k :: 32 word) = signed_take_bit 31 (int k)"
    by (simp add: signed_of_nat)
  also have "\<dots> = int k"
    using k by (intro signed_take_bit_int_eq_self) simp_all
  finally show ?thesis .
qed

lemma init_fields:
  "m_dfa (fst (init p)) = m_dfa p"
  "m_cb (fst (init p)) = m_cb p"
  "m_curState (fst (init p)) = getInitState (m_dfa p)"
  "m_curPos (fst (init p)) = 0"
  "m_lastSymb (fst (init p)) = m_lastSymb p"
  by (simp_all add: init_def Let_def)

lemma play_unfold:
  "play seq p =
     (case play_loop seq (fst (init p)) of (ok, p1, cs1) \<Rightarrow>
        (if \<not> ok then NoTrans
         else if \<not> hasFinState (m_dfa p1) (m_curState p1) then NonFinState
         else Ok,
         p1, snd (init p) @ cs1))"
  by (simp add: play_def split: prod.splits)

lemma play_loop_stuck_at:
  assumes "play_loop xs p = (True, p1, cs)" "getTrans (m_dfa p1) (m_curState p1) a = None"
  shows "play_loop (xs @ a # ys) p = (False, p1\<lparr>m_lastSymb := a\<rparr>, cs)"
  by (simp add: play_loop_append assms replaySymb_None)

lemma play_consumed:
  assumes "consume (m_dfa p) (getInitState (m_dfa p)) seq = Some qf"
  shows "fst (play seq p) = (if hasFinState (m_dfa p) qf then Ok else NonFinState) \<and>
         m_dfa (fst (snd (play seq p))) = m_dfa p \<and>
         m_cb (fst (snd (play seq p))) = m_cb p \<and>
         m_curState (fst (snd (play seq p))) = qf \<and>
         m_curPos (fst (snd (play seq p))) = of_nat (length seq) \<and>
         m_lastSymb (fst (snd (play seq p))) = (if seq = [] then m_lastSymb p else last seq)"
proof -
  from assms have "consume (m_dfa (fst (init p))) (m_curState (fst (init p))) seq = Some qf"
    by (simp add: init_fields)
  from play_loop_consumed [OF this] show ?thesis
    by (auto simp: play_unfold init_fields)
qed

lemma play_stuck:
  assumes "consume (m_dfa p) (getInitState (m_dfa p)) seq = None"
  shows "fst (play seq p) = NoTrans"
proof -
  from assms have "consume (m_dfa (fst (init p))) (m_curState (fst (init p))) seq = None"
    by (simp add: init_fields)
  from play_loop_stuck [OF this] show ?thesis
    by (cases "play_loop seq (fst (init p))") (simp add: play_unfold)
qed

lemma play_loop_calls:
  assumes "m_cb p = Some l" "play_loop seq p = (True, p1, cs)"
  shows "length cs = length seq \<and>
         map fst cs = transFiredCalls (m_dfa p) (m_curState p) seq \<and>
         (\<forall>k<length seq. \<exists>s t.
            fst (cs ! k) = onTransFired s (seq ! k) t \<and>
            getTrans (m_dfa p) s (seq ! k) = Some t \<and>
            m_curState (snd (cs ! k)) = s \<and>
            m_curPos (snd (cs ! k)) = m_curPos p + of_nat k)"
  using assms
proof (induction seq arbitrary: p cs)
  case Nil
  then show ?case by simp
next
  case (Cons a seq)
  show ?case
  proof (cases "getTrans (m_dfa p) (m_curState p) a")
    case None
    with Cons.prems show ?thesis by (simp add: replaySymb_None)
  next
    case (Some t)
    let ?p = "p\<lparr>m_lastSymb := a, m_curState := t, m_curPos := m_curPos p + 1\<rparr>"
    let ?c = "(onTransFired (m_curState p) a t, p\<lparr>m_lastSymb := a\<rparr>)"
    from Cons.prems Some obtain cs2 where
      loop: "play_loop seq ?p = (True, p1, cs2)" and cs: "cs = ?c # cs2"
      by (auto simp: replaySymb_Some notify_def split: prod.splits bool.splits)
    have cb: "m_cb ?p = Some l" using Cons.prems(1) by simp
    note IH = Cons.IH [OF cb loop]
    have "\<exists>s t'. fst (cs ! k) = onTransFired s ((a # seq) ! k) t' \<and>
            getTrans (m_dfa p) s ((a # seq) ! k) = Some t' \<and>
            m_curState (snd (cs ! k)) = s \<and>
            m_curPos (snd (cs ! k)) = m_curPos p + of_nat k" if "k < length (a # seq)" for k
    proof (cases k)
      case 0
      then show ?thesis using Some by (simp add: cs)
    next
      case (Suc k')
      with that have "k' < length seq" by simp
      with IH obtain s t' where
        "fst (cs2 ! k') = onTransFired s (seq ! k') t'"
        "getTrans (m_dfa p) s (seq ! k') = Some t'"
        "m_curState (snd (cs2 ! k')) = s"
        "m_curPos (snd (cs2 ! k')) = m_curPos p + 1 + of_nat k'"
        by auto
      then show ?thesis by (simp add: cs Suc add.assoc)
    qed
    moreover have "length cs = length (a # seq)" using IH by (simp add: cs)
    moreover have "map fst cs = transFiredCalls (m_dfa p) (m_curState p) (a # seq)"
      using IH Some by (simp add: cs)
    ultimately show ?thesis by blast
  qed
qed

lemma play_loop_frame:
  "play_loop seq p = (ok, p1, cs) \<Longrightarrow> m_dfa p1 = m_dfa p \<and> m_cb p1 = m_cb p"
proof (induction seq arbitrary: p cs)
  case Nil
  then show ?case by simp
next
  case (Cons a seq)
  show ?case
  proof (cases "getTrans (m_dfa p) (m_curState p) a")
    case None
    with Cons.prems show ?thesis by (auto simp: replaySymb_None)
  next
    case (Some t)
    let ?p = "p\<lparr>m_lastSymb := a, m_curState := t, m_curPos := m_curPos p + 1\<rparr>"
    from Cons.prems Some obtain cs2 where "play_loop seq ?p = (ok, p1, cs2)"
      by (auto simp: replaySymb_Some split: prod.splits)
    from Cons.IH [OF this] show ?thesis by simp
  qed
qed

lemma play_loop_agree:
  assumes "m_dfa p = m_dfa p'" "m_curState p = m_curState p'" "m_curPos p = m_curPos p'"
  shows "fst (play_loop seq p) = fst (play_loop seq p') \<and>
         m_curState (fst (snd (play_loop seq p))) = m_curState (fst (snd (play_loop seq p'))) \<and>
         m_curPos (fst (snd (play_loop seq p))) = m_curPos (fst (snd (play_loop seq p')))"
  using assms
proof (induction seq arbitrary: p p')
  case Nil
  then show ?case by simp
next
  case (Cons a seq)
  show ?case
  proof (cases "getTrans (m_dfa p) (m_curState p) a")
    case None
    with Cons.prems show ?thesis by (simp add: replaySymb_None)
  next
    case (Some t)
    let ?p = "p\<lparr>m_lastSymb := a, m_curState := t, m_curPos := m_curPos p + 1\<rparr>"
    let ?p' = "p'\<lparr>m_lastSymb := a, m_curState := t, m_curPos := m_curPos p' + 1\<rparr>"
    from Some Cons.prems have Some': "getTrans (m_dfa p') (m_curState p') a = Some t" by simp
    have "m_dfa ?p = m_dfa ?p'" "m_curState ?p = m_curState ?p'" "m_curPos ?p = m_curPos ?p'"
      using Cons.prems by simp_all
    from Cons.IH [OF this] show ?thesis
      by (cases "play_loop seq ?p"; cases "play_loop seq ?p'")
        (simp add: replaySymb_Some [OF Some] replaySymb_Some [OF Some'])
  qed
qed

lemma play_not_NoTrans:
  assumes "fst (play seq p) \<noteq> NoTrans"
  shows "\<exists>qf. consume (m_dfa p) (getInitState (m_dfa p)) seq = Some qf"
proof (cases "consume (m_dfa p) (getInitState (m_dfa p)) seq")
  case None
  from play_stuck [OF this] assms show ?thesis by simp
next
  case (Some qf)
  then show ?thesis by blast
qed

lemma example1_play_100:
  "play ''100'' (DfaPlayer_new (example1 q) cb q' a') =
     (NonFinState,
      \<lparr>m_dfa = example1 q, m_curState = 1, m_curPos = 3, m_lastSymb = CHR ''0'', m_cb = cb\<rparr>,
      snd (snd (play ''100'' (DfaPlayer_new (example1 q) cb q' a'))))"
  by (cases cb) (simp_all add: dfa_defs player_defs)

lemma play_calls:
  assumes "m_cb p = Some l" and "fst (play seq p) \<noteq> NoTrans"
  shows "\<exists>p1 cs. play_loop seq (fst (init p)) = (True, p1, cs) \<and>
           snd (snd (play seq p)) =
             (onStateChanging (getInitState (m_dfa p)) (getInitState (m_dfa p)), fst (init p)) # cs"
proof -
  obtain ok p1 cs where loop: "play_loop seq (fst (init p)) = (ok, p1, cs)"
    by (cases "play_loop seq (fst (init p))") auto
  with assms(2) have "ok" by (simp add: play_unfold split: if_splits)
  moreover have "snd (init p) =
      [(onStateChanging (getInitState (m_dfa p)) (getInitState (m_dfa p)), fst (init p))]"
    using assms(1) by (simp add: init_def notify_def Let_def)
  ultimately show ?thesis using loop by (simp add: play_unfold)
qed

lemma consume_replicate_loop:
  "getTrans d q a = Some q \<Longrightarrow> consume d q (replicate n a) = Some q"
  by (induction n) simp_all


subsection \<open>A missing transition stops the replay\<close>

text \<open>
  When the first \<open>i\<close> symbols of the sequence are replayed from the initial state and
  lead to a state that has no transition for the symbol at index \<open>i\<close>, \<^verbatim>\<open>play\<close>
  returns \<^verbatim>\<open>NoTrans\<close>. The outcome, the player and the calls are those of playing the
  sequence cut after index \<open>i\<close>: the later symbols are not consumed. The position the
  player holds is \<open>i\<close>, and \<^verbatim>\<open>getCurPos()\<close> returns it converted to \<^verbatim>\<open>State\<close>;
  \<^verbatim>\<open>getLastSymbol()\<close> is the symbol at index \<open>i\<close>, and \<^verbatim>\<open>getCurState()\<close> is the
  state reached before the failed step.
\<close>

lemma play_NoTrans_at_index:
  assumes "i < length seq"
    and "consume (m_dfa p) (getInitState (m_dfa p)) (take i seq) = Some qi"
    and "getTrans (m_dfa p) qi (seq ! i) = None"
  shows "fst (play seq p) = NoTrans \<and>
         play seq p = play (take (Suc i) seq) p \<and>
         getCurPos conv (fst (snd (play seq p))) = conv (of_nat i) \<and>
         (i < 2 ^ 31 \<longrightarrow> sint (m_curPos (fst (snd (play seq p)))) = int i) \<and>
         getLastSymbol (fst (snd (play seq p))) = seq ! i \<and>
         getCurState (fst (snd (play seq p))) = qi"
proof -
  let ?p0 = "fst (init p)"
  from assms(2) have "consume (m_dfa ?p0) (m_curState ?p0) (take i seq) = Some qi"
    by (simp add: init_fields)
  from play_loop_consumed [OF this] obtain pi cs where
    loop: "play_loop (take i seq) ?p0 = (True, pi, cs)" and
    flds: "m_dfa pi = m_dfa p" "m_curState pi = qi" "m_curPos pi = of_nat i"
    using assms(1) by (auto simp: init_fields)
  from assms(3) flds have none: "getTrans (m_dfa pi) (m_curState pi) (seq ! i) = None"
    by simp
  have split_seq: "seq = take i seq @ seq ! i # drop (Suc i) seq"
    using assms(1) by (rule id_take_nth_drop)
  have "play_loop (take i seq @ seq ! i # drop (Suc i) seq) ?p0 =
          (False, pi\<lparr>m_lastSymb := seq ! i\<rparr>, cs)"
    using loop none by (rule play_loop_stuck_at)
  with split_seq have whole: "play_loop seq ?p0 = (False, pi\<lparr>m_lastSymb := seq ! i\<rparr>, cs)"
    by simp
  have "play_loop (take i seq @ seq ! i # []) ?p0 = (False, pi\<lparr>m_lastSymb := seq ! i\<rparr>, cs)"
    using loop none by (rule play_loop_stuck_at)
  then have part: "play_loop (take (Suc i) seq) ?p0 = (False, pi\<lparr>m_lastSymb := seq ! i\<rparr>, cs)"
    using assms(1) by (simp add: take_Suc_conv_app_nth)
  have res: "play seq p = (NoTrans, pi\<lparr>m_lastSymb := seq ! i\<rparr>, snd (init p) @ cs)"
    by (simp add: play_unfold whole)
  have res': "play (take (Suc i) seq) p = (NoTrans, pi\<lparr>m_lastSymb := seq ! i\<rparr>, snd (init p) @ cs)"
    by (simp add: play_unfold part)
  show ?thesis
    by (simp add: res res' getCurPos_def getLastSymbol_def getCurState_def flds sint_of_nat_32)
qed


text \<open>
  Claim C2 at the input where the code departs from it: a
  \<^verbatim>\<open>DfaPlayer<unsigned char, char>\<close> on the automaton with the one transition
  \<open>(0, 'a') \<rightarrow> 0\<close> plays 256 times \<^verbatim>\<open>'a'\<close> and then \<^verbatim>\<open>'b'\<close>. The replay stops with
  \<^verbatim>\<open>NoTrans\<close> at index 256, in state 0 with last symbol \<^verbatim>\<open>'b'\<close>, and
  \<^verbatim>\<open>getCurPos()\<close>, whose return type is \<^verbatim>\<open>State\<close>, returns 0 and not 256: the value
  it also returns when the sequence \<^verbatim>\<open>'b'\<close> fails at index 0.
\<close>

theorem getCurPos_narrow_State:
  "fst (play (replicate 256 CHR ''a'' @ ''b'')
          (DfaPlayer_new (Dfa_bulk 0 0 [(0, CHR ''a'', 0)] [] :: (8 word, char) Dfa)
             (None :: unit option) 0 CHR ''z'')) = NoTrans \<and>
   getCurState
     (fst (snd (play (replicate 256 CHR ''a'' @ ''b'')
          (DfaPlayer_new (Dfa_bulk 0 0 [(0, CHR ''a'', 0)] [] :: (8 word, char) Dfa)
             (None :: unit option) 0 CHR ''z'')))) = 0 \<and>
   getLastSymbol
     (fst (snd (play (replicate 256 CHR ''a'' @ ''b'')
          (DfaPlayer_new (Dfa_bulk 0 0 [(0, CHR ''a'', 0)] [] :: (8 word, char) Dfa)
             (None :: unit option) 0 CHR ''z'')))) = CHR ''b'' \<and>
   sint (m_curPos
     (fst (snd (play (replicate 256 CHR ''a'' @ ''b'')
          (DfaPlayer_new (Dfa_bulk 0 0 [(0, CHR ''a'', 0)] [] :: (8 word, char) Dfa)
             (None :: unit option) 0 CHR ''z''))))) = 256 \<and>
   getCurPos ucast
     (fst (snd (play (replicate 256 CHR ''a'' @ ''b'')
          (DfaPlayer_new (Dfa_bulk 0 0 [(0, CHR ''a'', 0)] [] :: (8 word, char) Dfa)
             (None :: unit option) 0 CHR ''z'')))) = 0 \<and>
   getCurPos ucast
     (fst (snd (play ''b''
          (DfaPlayer_new (Dfa_bulk 0 0 [(0, CHR ''a'', 0)] [] :: (8 word, char) Dfa)
             (None :: unit option) 0 CHR ''z'')))) = 0"
proof -
  let ?d = "Dfa_bulk 0 0 [(0, CHR ''a'', 0)] [] :: (8 word, char) Dfa"
  let ?P = "DfaPlayer_new ?d (None :: unit option) 0 CHR ''z''"
  let ?seq = "replicate 256 CHR ''a'' @ ''b''"
  have loop: "getTrans ?d 0 CHR ''a'' = Some 0" and gap: "getTrans ?d 0 CHR ''b'' = None"
    and start: "getInitState ?d = 0"
    by (simp_all add: dfa_defs)
  have dfa: "m_dfa ?P = ?d" by (simp add: DfaPlayer_new_def)
  have h1: "256 < length ?seq" by simp
  have h2: "consume (m_dfa ?P) (getInitState (m_dfa ?P)) (take 256 ?seq) = Some 0"
    by (simp add: dfa start consume_replicate_loop [OF loop])
  have h3: "getTrans (m_dfa ?P) 0 (?seq ! 256) = None"
    by (simp add: dfa gap nth_append)
  note long = play_NoTrans_at_index [OF h1 h2 h3, of ucast]
  from long [THEN conjunct1] have r: "fst (play ?seq ?P) = NoTrans" .
  from long [THEN conjunct2, THEN conjunct2, THEN conjunct1]
  have conv: "getCurPos ucast (fst (snd (play ?seq ?P))) = (ucast (of_nat 256 :: 32 word) :: 8 word)" .
  then have pos: "getCurPos ucast (fst (snd (play ?seq ?P))) = (0 :: 8 word)" by simp
  from long [THEN conjunct2, THEN conjunct2, THEN conjunct2, THEN conjunct1]
  have held: "sint (m_curPos (fst (snd (play ?seq ?P)))) = 256" by simp
  from long [THEN conjunct2, THEN conjunct2, THEN conjunct2, THEN conjunct2]
  have rest: "getLastSymbol (fst (snd (play ?seq ?P))) = CHR ''b''"
    "getCurState (fst (snd (play ?seq ?P))) = 0"
    by (simp_all add: nth_append)
  have short: "getCurPos ucast (fst (snd (play ''b'' ?P))) = (0 :: 8 word)"
    by (simp add: dfa_defs player_defs)
  from r pos held rest short show ?thesis by blast
qed

subsection \<open>Playing twice\<close>

lemma play_same_dfa:
  assumes "m_dfa p' = m_dfa p"
  shows "fst (play seq p') = fst (play seq p) \<and>
         m_curState (fst (snd (play seq p'))) = m_curState (fst (snd (play seq p))) \<and>
         m_curPos (fst (snd (play seq p'))) = m_curPos (fst (snd (play seq p)))"
proof -
  obtain ok p1 cs1 where loop: "play_loop seq (fst (init p)) = (ok, p1, cs1)"
    by (cases "play_loop seq (fst (init p))") auto
  obtain ok' p1' cs1' where loop': "play_loop seq (fst (init p')) = (ok', p1', cs1')"
    by (cases "play_loop seq (fst (init p'))") auto
  from play_loop_frame [OF loop] have dfa1: "m_dfa p1 = m_dfa p"
    by (simp add: init_fields)
  from play_loop_frame [OF loop'] have dfa1': "m_dfa p1' = m_dfa p"
    by (simp add: init_fields assms)
  have "m_dfa (fst (init p')) = m_dfa (fst (init p))"
    "m_curState (fst (init p')) = m_curState (fst (init p))"
    "m_curPos (fst (init p')) = m_curPos (fst (init p))"
    by (simp_all add: init_fields assms)
  from play_loop_agree [OF this, of seq]
  have "ok' = ok" "m_curState p1' = m_curState p1" "m_curPos p1' = m_curPos p1"
    by (simp_all add: loop loop')
  then show ?thesis
    by (simp add: play_unfold loop loop' dfa1 dfa1')
qed

lemma play_keeps_dfa: "m_dfa (fst (snd (play seq p))) = m_dfa p"
proof -
  obtain ok p1 cs1 where loop: "play_loop seq (fst (init p)) = (ok, p1, cs1)"
    by (cases "play_loop seq (fst (init p))") auto
  from play_loop_frame [OF loop] show ?thesis
    by (simp add: play_unfold loop init_fields)
qed

text \<open>
  Claim C7. A play does not depend on what the player held before: two players on the
  same automaton, whatever their current state, position and last symbol, get the same
  \<^verbatim>\<open>Result\<close>, \<^verbatim>\<open>getCurState()\<close> and \<^verbatim>\<open>getCurPos()\<close> from the same sequence. The
  result is that of following the sequence from the automaton's initial state:
  \<^verbatim>\<open>NoTrans\<close> when a transition is missing on the way, and otherwise \<^verbatim>\<open>Ok\<close> or
  \<^verbatim>\<open>NonFinState\<close> by the state reached. A play leaves the player on the same automaton.
  Hence playing the same sequence a second time, on the player the first run left, gives
  the same \<^verbatim>\<open>Result\<close> and the same \<^verbatim>\<open>getCurState()\<close> and \<^verbatim>\<open>getCurPos()\<close> as the
  first run.
\<close>

theorem play_twice_same:
  "(m_dfa p' = m_dfa p \<longrightarrow>
      fst (play seq p') = fst (play seq p) \<and>
      getCurState (fst (snd (play seq p'))) = getCurState (fst (snd (play seq p))) \<and>
      getCurPos conv (fst (snd (play seq p'))) = getCurPos conv (fst (snd (play seq p)))) \<and>
   fst (play seq p) =
     (case consume (m_dfa p) (getInitState (m_dfa p)) seq of
        None \<Rightarrow> NoTrans
      | Some qf \<Rightarrow> if hasFinState (m_dfa p) qf then Ok else NonFinState) \<and>
   m_dfa (fst (snd (play seq p))) = m_dfa p \<and>
   fst (play seq (fst (snd (play seq p)))) = fst (play seq p) \<and>
   getCurState (fst (snd (play seq (fst (snd (play seq p)))))) =
     getCurState (fst (snd (play seq p))) \<and>
   getCurPos conv (fst (snd (play seq (fst (snd (play seq p)))))) =
     getCurPos conv (fst (snd (play seq p)))"
proof -
  have same: "m_dfa p' = m_dfa p \<longrightarrow>
      fst (play seq p') = fst (play seq p) \<and>
      getCurState (fst (snd (play seq p'))) = getCurState (fst (snd (play seq p))) \<and>
      getCurPos conv (fst (snd (play seq p'))) = getCurPos conv (fst (snd (play seq p)))"
    using play_same_dfa [of p' p seq] by (simp add: getCurState_def getCurPos_def)
  have fresh: "fst (play seq p) =
     (case consume (m_dfa p) (getInitState (m_dfa p)) seq of
        None \<Rightarrow> NoTrans
      | Some qf \<Rightarrow> if hasFinState (m_dfa p) qf then Ok else NonFinState)"
  proof (cases "consume (m_dfa p) (getInitState (m_dfa p)) seq")
    case None
    with play_stuck [OF None] show ?thesis by simp
  next
    case (Some qf)
    with play_consumed [OF Some] show ?thesis by simp
  qed
  have keep: "m_dfa (fst (snd (play seq p))) = m_dfa p"
    by (rule play_keeps_dfa)
  have again: "fst (play seq (fst (snd (play seq p)))) = fst (play seq p) \<and>
      getCurState (fst (snd (play seq (fst (snd (play seq p)))))) =
        getCurState (fst (snd (play seq p))) \<and>
      getCurPos conv (fst (snd (play seq (fst (snd (play seq p)))))) =
        getCurPos conv (fst (snd (play seq p)))"
    using play_same_dfa [OF keep, of seq] by (simp add: getCurState_def getCurPos_def)
  from same fresh keep again show ?thesis by blast
qed

theorem play_twice_same_witness:
  "m_dfa \<lparr>m_dfa = example1 0, m_curState = 2, m_curPos = 7, m_lastSymb = CHR ''q'',
           m_cb = (None :: unit option)\<rparr> =
     m_dfa (DfaPlayer_new (example1 0) (None :: unit option) 9 CHR ''z'') \<and>
   fst (play ''100'' \<lparr>m_dfa = example1 0, m_curState = 2, m_curPos = 7,
           m_lastSymb = CHR ''q'', m_cb = (None :: unit option)\<rparr>) = NonFinState \<and>
   getCurState (fst (snd (play ''100'' \<lparr>m_dfa = example1 0, m_curState = 2, m_curPos = 7,
           m_lastSymb = CHR ''q'', m_cb = (None :: unit option)\<rparr>))) = 1 \<and>
   getCurPos (\<lambda>w. w) (fst (snd (play ''100'' \<lparr>m_dfa = example1 0, m_curState = 2,
           m_curPos = 7, m_lastSymb = CHR ''q'', m_cb = (None :: unit option)\<rparr>))) = 3"
proof -
  let ?P = "DfaPlayer_new (example1 0) (None :: unit option) 9 CHR ''z''"
  let ?P' = "\<lparr>m_dfa = example1 0, m_curState = 2, m_curPos = 7, m_lastSymb = CHR ''q'',
           m_cb = (None :: unit option)\<rparr>"
  have h: "m_dfa ?P' = m_dfa ?P" by (simp add: DfaPlayer_new_def)
  have first: "fst (play ''100'' ?P) = NonFinState"
    "getCurState (fst (snd (play ''100'' ?P))) = 1"
    "getCurPos (\<lambda>w. w) (fst (snd (play ''100'' ?P))) = 3"
    by (subst example1_play_100, simp add: getCurState_def getCurPos_def)+
  note twice = play_twice_same [of ?P' ?P "''100''" "\<lambda>w. w"]
  from twice [THEN conjunct1, rule_format, OF h] first h show ?thesis
    by simp
qed

subsection \<open>A sequence replayed to its end\<close>

text \<open>
  Claim C3. When every symbol of the sequence has a transition from the state reached
  so far, \<^verbatim>\<open>play\<close> returns \<^verbatim>\<open>Ok\<close> if the final state is an accepting state and
  \<^verbatim>\<open>NonFinState\<close> otherwise, and \<^verbatim>\<open>getCurState()\<close> is that final state; a result
  other than \<^verbatim>\<open>NoTrans\<close> is never returned in another way. On the automaton of the
  tests (initial state 0, accepting state 2), \<^verbatim>\<open>play({'1', '0', '0'})\<close> returns
  \<^verbatim>\<open>NonFinState\<close> with final state 1, final position 3 and last symbol \<^verbatim>\<open>'0'\<close>.
\<close>

theorem play_consumed_result:
  "(consume (m_dfa p) (getInitState (m_dfa p)) seq = Some qf \<longrightarrow>
      fst (play seq p) = (if hasFinState (m_dfa p) qf then Ok else NonFinState) \<and>
      getCurState (fst (snd (play seq p))) = qf) \<and>
   (fst (play seq p) \<noteq> NoTrans \<longrightarrow>
      consume (m_dfa p) (getInitState (m_dfa p)) seq = Some (getCurState (fst (snd (play seq p)))) \<and>
      fst (play seq p) =
        (if hasFinState (m_dfa p) (getCurState (fst (snd (play seq p)))) then Ok else NonFinState)) \<and>
   fst (play ''100'' (DfaPlayer_new (example1 q) cb q' a')) = NonFinState \<and>
   getCurState (fst (snd (play ''100'' (DfaPlayer_new (example1 q) cb q' a')))) = 1 \<and>
   getCurPos (\<lambda>w. w) (fst (snd (play ''100'' (DfaPlayer_new (example1 q) cb q' a')))) = 3 \<and>
   getLastSymbol (fst (snd (play ''100'' (DfaPlayer_new (example1 q) cb q' a')))) = CHR ''0''"
proof -
  have general: "fst (play seq p) = (if hasFinState (m_dfa p) qx then Ok else NonFinState) \<and>
      getCurState (fst (snd (play seq p))) = qx"
    if "consume (m_dfa p) (getInitState (m_dfa p)) seq = Some qx" for qx
    using play_consumed [OF that] by (simp add: getCurState_def)
  have reached: "consume (m_dfa p) (getInitState (m_dfa p)) seq = Some (getCurState (fst (snd (play seq p)))) \<and>
      fst (play seq p) =
        (if hasFinState (m_dfa p) (getCurState (fst (snd (play seq p)))) then Ok else NonFinState)"
    if "fst (play seq p) \<noteq> NoTrans"
  proof -
    from play_not_NoTrans [OF that] obtain qx where
      "consume (m_dfa p) (getInitState (m_dfa p)) seq = Some qx" by blast
    with general [OF this] show ?thesis by simp
  qed
  have "fst (play ''100'' (DfaPlayer_new (example1 q) cb q' a')) = NonFinState"
    "getCurState (fst (snd (play ''100'' (DfaPlayer_new (example1 q) cb q' a')))) = 1"
    "getCurPos (\<lambda>w. w) (fst (snd (play ''100'' (DfaPlayer_new (example1 q) cb q' a')))) = 3"
    "getLastSymbol (fst (snd (play ''100'' (DfaPlayer_new (example1 q) cb q' a')))) = CHR ''0''"
    by (subst example1_play_100, simp add: getCurState_def getCurPos_def getLastSymbol_def)+
  with general reached show ?thesis by blast
qed

theorem play_consumed_result_witness:
  "consume (m_dfa (DfaPlayer_new (example1 0) (None :: unit option) 9 CHR ''z''))
     (getInitState (m_dfa (DfaPlayer_new (example1 0) (None :: unit option) 9 CHR ''z'')))
     ''1010'' = Some 2 \<and>
   fst (play ''1010'' (DfaPlayer_new (example1 0) (None :: unit option) 9 CHR ''z'')) \<noteq> NoTrans \<and>
   fst (play ''1010'' (DfaPlayer_new (example1 0) (None :: unit option) 9 CHR ''z'')) = Ok \<and>
   getCurState
     (fst (snd (play ''1010'' (DfaPlayer_new (example1 0) (None :: unit option) 9 CHR ''z'')))) = 2"
proof -
  let ?P = "DfaPlayer_new (example1 0) (None :: unit option) 9 CHR ''z''"
  have h: "consume (m_dfa ?P) (getInitState (m_dfa ?P)) ''1010'' = Some 2"
    by (simp add: dfa_defs DfaPlayer_new_def)
  have fin: "hasFinState (m_dfa ?P) 2"
    by (simp add: dfa_defs DfaPlayer_new_def)
  note res = play_consumed_result [of ?P "''1010''" 2 0 None 9 "CHR ''z''"]
  from res [THEN conjunct1, rule_format, OF h] fin
  have ok: "fst (play ''1010'' ?P) = Ok" "getCurState (fst (snd (play ''1010'' ?P))) = 2"
    by simp_all
  then have ne: "fst (play ''1010'' ?P) \<noteq> NoTrans" by simp
  from res [THEN conjunct2, THEN conjunct1, rule_format, OF ne] h ok ne show ?thesis
    by simp
qed

subsection \<open>The calls the listener receives\<close>

text \<open>
  Claim C6. With a listener attached and a sequence of length \<open>n\<close> replayed to its
  end, the listener receives \<open>n + 1\<close> calls: first \<^verbatim>\<open>onStateChanging\<close> with the
  initial state as both arguments, then one \<^verbatim>\<open>onTransFired\<close> call per symbol, in
  input order, each with the source, the symbol and the destination of the transition
  taken. When the call for the symbol at index \<open>k\<close> runs, the player's current state
  is still the source and its position is still \<open>k\<close>.
\<close>

theorem play_observer_calls:
  assumes "m_cb p = Some l" and "fst (play seq p) \<noteq> NoTrans"
  shows "length (snd (snd (play seq p))) = Suc (length seq) \<and>
         snd (snd (play seq p)) ! 0 =
           (onStateChanging (getInitState (m_dfa p)) (getInitState (m_dfa p)), fst (init p)) \<and>
         map fst (snd (snd (play seq p))) =
           onStateChanging (getInitState (m_dfa p)) (getInitState (m_dfa p)) #
           transFiredCalls (m_dfa p) (getInitState (m_dfa p)) seq \<and>
         (\<forall>k<length seq. \<exists>s t.
            fst (snd (snd (play seq p)) ! Suc k) = onTransFired s (seq ! k) t \<and>
            getTrans (m_dfa p) s (seq ! k) = Some t \<and>
            getCurState (snd (snd (snd (play seq p)) ! Suc k)) = s \<and>
            m_curPos (snd (snd (snd (play seq p)) ! Suc k)) = of_nat k)"
proof -
  from play_calls [OF assms] obtain p1 cs where
    loop: "play_loop seq (fst (init p)) = (True, p1, cs)" and
    calls: "snd (snd (play seq p)) =
      (onStateChanging (getInitState (m_dfa p)) (getInitState (m_dfa p)), fst (init p)) # cs"
    by blast
  have cb: "m_cb (fst (init p)) = Some l" using assms(1) by (simp add: init_fields)
  from play_loop_calls [OF cb loop] show ?thesis
    by (simp add: calls init_fields getCurState_def)
qed

theorem play_observer_calls_witness:
  "m_cb (DfaPlayer_new (example1 0) (Some ()) 9 CHR ''z'') = Some () \<and>
   fst (play ''01'' (DfaPlayer_new (example1 0) (Some ()) 9 CHR ''z'')) \<noteq> NoTrans \<and>
   map fst (snd (snd (play ''01'' (DfaPlayer_new (example1 0) (Some ()) 9 CHR ''z'')))) =
     [onStateChanging 0 0, onTransFired 0 CHR ''0'' 1, onTransFired 1 CHR ''1'' 2] \<and>
   getCurState
     (snd (snd (snd (play ''01'' (DfaPlayer_new (example1 0) (Some ()) 9 CHR ''z''))) ! 1)) = 0 \<and>
   getCurState
     (snd (snd (snd (play ''01'' (DfaPlayer_new (example1 0) (Some ()) 9 CHR ''z''))) ! 2)) = 1"
proof -
  let ?P = "DfaPlayer_new (example1 0) (Some ()) 9 CHR ''z''"
  let ?calls = "snd (snd (play ''01'' ?P))"
  have h1: "m_cb ?P = Some ()" by (simp add: DfaPlayer_new_def)
  have h2: "fst (play ''01'' ?P) \<noteq> NoTrans" by (simp add: dfa_defs player_defs)
  have d: "getInitState (m_dfa ?P) = 0"
    "transFiredCalls (m_dfa ?P) 0 ''01'' = [onTransFired 0 CHR ''0'' 1, onTransFired 1 CHR ''1'' 2]"
    by (simp_all add: dfa_defs DfaPlayer_new_def)
  note calls = play_observer_calls [OF h1 h2]
  from calls [THEN conjunct1] have len: "length ?calls = 3" by simp
  from calls [THEN conjunct2, THEN conjunct2, THEN conjunct1]
  have m: "map fst ?calls =
     [onStateChanging 0 0, onTransFired 0 CHR ''0'' 1, onTransFired 1 CHR ''1'' 2]"
    by (simp only: d)
  have nth: "fst (?calls ! k) = map fst ?calls ! k" if "k < 3" for k
    using that len by simp
  note each = calls [THEN conjunct2, THEN conjunct2, THEN conjunct2, rule_format]
  from each [of 0] obtain s0 t0 where
    "fst (?calls ! Suc 0) = onTransFired s0 (''01'' ! 0) t0" "getCurState (snd (?calls ! Suc 0)) = s0"
    by auto
  with nth [of "Suc 0"] m have c1: "getCurState (snd (?calls ! 1)) = 0" by simp
  from each [of 1] obtain s1 t1 where
    "fst (?calls ! Suc 1) = onTransFired s1 (''01'' ! 1) t1" "getCurState (snd (?calls ! Suc 1)) = s1"
    by auto
  with nth [of "Suc 1"] m have c2: "getCurState (snd (?calls ! 2)) = 1"
    by (simp add: numeral_2_eq_2)
  from h1 h2 m c1 c2 show ?thesis by blast
qed

subsection \<open>The empty sequence\<close>

text \<open>
  Claim C9. With a listener attached, \<^verbatim>\<open>play\<close> on the empty sequence does not return
  \<^verbatim>\<open>NoTrans\<close>; the listener receives the one call \<^verbatim>\<open>onStateChanging(init, init)\<close>
  and no \<^verbatim>\<open>onTransFired\<close>; \<^verbatim>\<open>getCurPos()\<close> is 0 and \<^verbatim>\<open>getCurState()\<close> is the
  initial state; the result is \<^verbatim>\<open>Ok\<close> if the initial state is accepting and
  \<^verbatim>\<open>NonFinState\<close> otherwise.
\<close>

theorem play_empty_sequence:
  assumes "m_cb p = Some l"
  shows "fst (play [] p) \<noteq> NoTrans \<and>
         map fst (snd (snd (play [] p))) =
           [onStateChanging (getInitState (m_dfa p)) (getInitState (m_dfa p))] \<and>
         getCurPos conv (fst (snd (play [] p))) = conv 0 \<and>
         getCurState (fst (snd (play [] p))) = getInitState (m_dfa p) \<and>
         fst (play [] p) =
           (if hasFinState (m_dfa p) (getInitState (m_dfa p)) then Ok else NonFinState)"
  using assms by (simp add: player_defs Let_def)

theorem play_empty_sequence_witness:
  "m_cb (DfaPlayer_new (example1 0) (Some ()) 9 CHR ''z'') = Some () \<and>
   fst (play [] (DfaPlayer_new (example1 0) (Some ()) 9 CHR ''z'')) = NonFinState \<and>
   map fst (snd (snd (play [] (DfaPlayer_new (example1 0) (Some ()) 9 CHR ''z'')))) =
     [onStateChanging 0 0] \<and>
   getCurPos (\<lambda>w. w) (fst (snd (play [] (DfaPlayer_new (example1 0) (Some ()) 9 CHR ''z'')))) = 0 \<and>
   getCurState (fst (snd (play [] (DfaPlayer_new (example1 0) (Some ()) 9 CHR ''z'')))) = 0"
proof -
  let ?P = "DfaPlayer_new (example1 0) (Some ()) 9 CHR ''z''"
  have h: "m_cb ?P = Some ()" by (simp add: DfaPlayer_new_def)
  have d: "getInitState (m_dfa ?P) = 0" "\<not> hasFinState (m_dfa ?P) 0"
    by (simp_all add: dfa_defs DfaPlayer_new_def)
  from play_empty_sequence [OF h, of "\<lambda>w. w"] h d show ?thesis
    by simp
qed

subsection \<open>The accessors before the first play\<close>



end
